theory Spec2Isabelle
  imports
    Complex_Main
    "HOL-Library.Product_Lexorder"
    "HOL-Library.List_Lexorder"
    "HOL-Library.Char_ord"
begin

section \<open>The Megatron-LM server client of the evaluation harness\<close>

text \<open>
  This theory embeds \<^verbatim>\<open>lm_eval/models/megatronlm.py\<close>: the decoding of a scoring
  response (\<^verbatim>\<open>get_result\<close>), the truncation of scoring and generation inputs, the
  chunker of the generation path (\<^verbatim>\<open>sameuntil_chunks\<close>), the cutting of generated
  text at stop sequences, the completion query and its retry wrapper.

  Python integers are \<open>int\<close>; token ids are \<open>int\<close>; a Python \<^verbatim>\<open>str\<close> is a list of
  characters. Exceptions are values of the type \<open>error\<close>, and a function that can raise
  returns \<open>error + 'a\<close> with \<open>Inl\<close> for the exception.
\<close>

subsection \<open>Exceptions and Python list primitives\<close>

datatype error =
    IndexError
  | TypeError
  | ValueError
  | RequestException
  | JSONDecodeError
  | StatusException int string
  | UnexpectedResponseException int

text \<open>
  \<^verbatim>\<open>xs[i]\<close>: a negative index counts from the end, an index out of range raises.
\<close>

definition py_index :: "'a list \<Rightarrow> int \<Rightarrow> error + 'a" where
  "py_index xs i =
     (if 0 \<le> i \<and> i < int (length xs) then Inr (xs ! nat i)
      else if i < 0 \<and> - int (length xs) \<le> i then Inr (xs ! nat (int (length xs) + i))
      else Inl IndexError)"

text \<open>
  The entry that \<^verbatim>\<open>xs[j]\<close> reads when \<open>j\<close> is in range (a negative \<open>j\<close> reads from
  the end); it is used to state what the loops visit.
\<close>

definition py_nth :: "'a list \<Rightarrow> int \<Rightarrow> 'a" where
  "py_nth xs j = xs ! nat (if j < 0 then int (length xs) + j else j)"

text \<open>
  \<^verbatim>\<open>xs[i:]\<close>: a negative start counts from the end, and the start is clamped to
  the range \<open>0 .. len(xs)\<close>; a slice never raises.
\<close>

definition py_slice_from :: "int \<Rightarrow> 'a list \<Rightarrow> 'a list" where
  "py_slice_from i xs =
     (let n = int (length xs); j = (if i < 0 then max 0 (n + i) else min i n)
      in drop (nat j) xs)"

text \<open>
  \<^verbatim>\<open>sum(xs)\<close> starts from \<open>0\<close> and adds the entries from left to right. A
  log-probability entry of the server may be absent (\<^verbatim>\<open>None\<close>, as in the example
  \<^verbatim>\<open>[[None, -1.2, -4.5, -5.0]]\<close> of the docstring); adding \<^verbatim>\<open>None\<close> raises
  \<^verbatim>\<open>TypeError\<close>. The number type is left open: only its \<open>0\<close> and \<open>+\<close> are used, and no
  law of addition is assumed.
\<close>

fun py_sum_from :: "'a::{zero,plus} \<Rightarrow> 'a option list \<Rightarrow> error + 'a" where
  "py_sum_from acc [] = Inr acc"
| "py_sum_from acc (None # xs) = Inl TypeError"
| "py_sum_from acc (Some x # xs) = py_sum_from (acc + x) xs"

definition py_sum :: "'a::{zero,plus} option list \<Rightarrow> error + 'a" where
  "py_sum xs = py_sum_from 0 xs"

subsection \<open>Decoding one scoring item: \<^verbatim>\<open>get_result\<close>\<close>

text \<open>
  The loop \<^verbatim>\<open>for i in range(ctxlen, len(is_max_logprobs))\<close> with its \<^verbatim>\<open>break\<close>:
  \<open>is_greedy_loop is_max_logprobs i\<close> is the value of \<^verbatim>\<open>is_greedy\<close> when the loop is
  entered at index \<open>i\<close>.
\<close>

function is_greedy_loop :: "bool list \<Rightarrow> int \<Rightarrow> error + bool" where
  "is_greedy_loop is_max_logprobs i =
     (if i < int (length is_max_logprobs) then
        (case py_index is_max_logprobs i of
           Inl e \<Rightarrow> Inl e
         | Inr b \<Rightarrow> if \<not> b then Inr False else is_greedy_loop is_max_logprobs (i + 1))
      else Inr True)"
  by pat_completeness auto
termination
  by (relation "measure (\<lambda>(is_max_logprobs, i). nat (int (length is_max_logprobs) - i))") auto

declare is_greedy_loop.simps [simp del]

definition get_result ::
  "'a::{zero,plus} option list \<Rightarrow> bool list \<Rightarrow> int \<Rightarrow> error + ('a \<times> bool)" where
  "get_result logprobs is_max_logprobs ctxlen =
     (let first_continuation_logprob_index = ctxlen - 1;
          continuation_logprobs = py_slice_from first_continuation_logprob_index logprobs
      in case is_greedy_loop is_max_logprobs ctxlen of
           Inl e \<Rightarrow> Inl e
         | Inr is_greedy \<Rightarrow>
             (case py_sum continuation_logprobs of
                Inl e \<Rightarrow> Inl e
              | Inr s \<Rightarrow> Inr (s, is_greedy)))"

subsection \<open>The client and the truncation of its inputs\<close>

text \<open>
  The server's answer to the \<^verbatim>\<open>metadata\<close> query, and the fields that
  \<^verbatim>\<open>MegatronServerLM.__init__\<close> sets. The property \<^verbatim>\<open>max_gen_toks\<close> is the constant 256,
  and \<^verbatim>\<open>_max_length\<close> is the server's \<^verbatim>\<open>max_length\<close> less \<^verbatim>\<open>max_gen_toks\<close>.
\<close>

record meglm_metadata =
  meta_vocab_size :: int
  meta_eod_token_id :: int
  meta_max_length :: int

record client =
  server_url :: string
  model_name :: string
  batch_size :: int
  truncate_input :: bool
  vocab_size :: int
  eot_token_id :: int
  max_length :: int

definition max_gen_toks :: int where
  "max_gen_toks = 256"

definition MegatronServerLM_init ::
  "meglm_metadata \<Rightarrow> string \<Rightarrow> string \<Rightarrow> int \<Rightarrow> bool \<Rightarrow> client" where
  "MegatronServerLM_init meta url name bsz trunc =
     \<lparr>server_url = url, model_name = name, batch_size = bsz, truncate_input = trunc,
      vocab_size = meta_vocab_size meta,
      eot_token_id = meta_eod_token_id meta,
      max_length = meta_max_length meta - max_gen_toks\<rparr>"

text \<open>
  The first loop of \<^verbatim>\<open>_loglikelihood_tokens\<close> over a chunk: for one request
  \<^verbatim>\<open>(cache_key, context_enc, continuation_enc)\<close> the input \<^verbatim>\<open>inp\<close> that is sent and the
  context length \<^verbatim>\<open>ctxlen\<close> that \<^verbatim>\<open>get_result\<close> is given.
\<close>

definition loglikelihood_tokens_inp ::
  "client \<Rightarrow> 'c \<times> int list \<times> int list \<Rightarrow> int list \<times> int" where
  "loglikelihood_tokens_inp self request =
     (case request of (cache_key, context_enc, continuation_enc) \<Rightarrow>
        let inp = py_slice_from (- (max_length self + 1)) (context_enc @ continuation_enc);
            ctxlen = int (length context_enc)
                     - max 0 (int (length context_enc) + int (length continuation_enc)
                              - (max_length self + 1))
        in (inp, ctxlen))"

text \<open>
  The first loop of \<^verbatim>\<open>greedy_until\<close> over a chunk: the prompt sent for one context. The
  tokenizer is the server's (\<^verbatim>\<open>tok_encode\<close> is a remote query); it is a parameter.
\<close>

definition greedy_until_inp :: "client \<Rightarrow> (string \<Rightarrow> int list) \<Rightarrow> string \<Rightarrow> int list" where
  "greedy_until_inp self tok_encode context =
     (let context_enc = tok_encode context
      in py_slice_from (- (max_length self - max_gen_toks)) context_enc)"

subsection \<open>The chunker of the generation path\<close>

text \<open>
  \<^verbatim>\<open>sameuntil_chunks(xs, size)\<close> is a generator that \<^verbatim>\<open>greedy_until\<close> consumes whole
  with \<^verbatim>\<open>list(...)\<close>. \<open>sameuntil_loop\<close> is its \<^verbatim>\<open>for\<close> loop with the final
  \<^verbatim>\<open>if ret: yield\<close>, carrying \<^verbatim>\<open>ret\<close> and \<^verbatim>\<open>lastuntil\<close>; the read \<^verbatim>\<open>xs[0][1]\<close> before
  the loop raises on an empty list.
\<close>

fun sameuntil_loop ::
  "('a \<times> 'u) list \<Rightarrow> int \<Rightarrow> ('a \<times> 'u) list \<Rightarrow> 'u \<Rightarrow> (('a \<times> 'u) list \<times> 'u) list" where
  "sameuntil_loop [] sz ret lastuntil = (if ret \<noteq> [] then [(ret, lastuntil)] else [])"
| "sameuntil_loop (x # xs) sz ret lastuntil =
     (if sz \<le> int (length ret) \<or> snd x \<noteq> lastuntil
      then (ret, lastuntil) # sameuntil_loop xs sz [x] (snd x)
      else sameuntil_loop xs sz (ret @ [x]) lastuntil)"

definition sameuntil_chunks ::
  "('a \<times> 'u) list \<Rightarrow> int \<Rightarrow> error + (('a \<times> 'u) list \<times> 'u) list" where
  "sameuntil_chunks xs sz =
     (case xs of
        [] \<Rightarrow> Inl IndexError
      | x # _ \<Rightarrow> Inr (sameuntil_loop xs sz [] (snd x)))"

subsection \<open>Cutting the generated text\<close>

text \<open>
  A \<^verbatim>\<open>str\<close> is the list of its characters, of any type. \<^verbatim>\<open>s.split(term)[0]\<close> is the
  part of \<open>s\<close> before the leftmost occurrence of \<open>term\<close>, or \<open>s\<close> when there is none; an
  empty separator raises \<^verbatim>\<open>ValueError\<close>.
\<close>

fun startswith :: "'a list \<Rightarrow> 'a list \<Rightarrow> bool" where
  "startswith s [] = True"
| "startswith [] (p # ps) = False"
| "startswith (c # cs) (p # ps) = (c = p \<and> startswith cs ps)"

definition removeprefix :: "'a list \<Rightarrow> 'a list \<Rightarrow> 'a list" where
  "removeprefix s p = (if startswith s p then drop (length p) s else s)"

fun before_first :: "'a list \<Rightarrow> 'a list \<Rightarrow> 'a list" where
  "before_first [] t = []"
| "before_first (c # cs) t = (if startswith (c # cs) t then [] else c # before_first cs t)"

definition split_head :: "'a list \<Rightarrow> 'a list \<Rightarrow> error + 'a list" where
  "split_head s t = (if t = [] then Inl ValueError else Inr (before_first s t))"

text \<open>The loop \<^verbatim>\<open>for term in until: s = s.split(term)[0]\<close>.\<close>

fun cut_until :: "'a list \<Rightarrow> 'a list list \<Rightarrow> error + 'a list" where
  "cut_until s [] = Inr s"
| "cut_until s (t # ts) =
     (case split_head s t of Inl e \<Rightarrow> Inl e | Inr s' \<Rightarrow> cut_until s' ts)"

text \<open>What \<^verbatim>\<open>greedy_until\<close> appends to \<^verbatim>\<open>res\<close> for one generated text.\<close>

definition greedy_until_text :: "'a list \<Rightarrow> 'a list \<Rightarrow> 'a list list \<Rightarrow> error + 'a list" where
  "greedy_until_text text context until = cut_until (removeprefix text context) until"

text \<open>
  \<open>occurs_at t s i\<close>: the sequence \<open>t\<close> occurs in \<open>s\<close> starting at index \<open>i\<close>. It is used to
  state where the text is cut.
\<close>

definition occurs_at :: "'a list \<Rightarrow> 'a list \<Rightarrow> nat \<Rightarrow> bool" where
  "occurs_at t s i = (i + length t \<le> length s \<and> take (length t) (drop i s) = t)"

subsection \<open>The completion query and its retry wrapper\<close>

text \<open>
  The keyword arguments of \<^verbatim>\<open>megatron_query\<close>, and the JSON body \<^verbatim>\<open>data\<close> it sends
  (an absent key of the dictionary is \<open>None\<close>).
\<close>

record completion_kwargs =
  kw_model_name :: string
  kw_prompts :: "int list list"
  kw_max_tokens :: int
  kw_temperature :: real
  kw_logprobs :: int
  kw_top_k :: "int option"
  kw_stop_token :: "int option"

record api_data =
  d_model_name :: string
  d_prompts :: "int list list"
  d_tokens_to_generate :: int
  d_logprobs :: bool
  d_stop_token :: int
  d_top_k :: "int option"
  d_temperature :: "real option"

text \<open>
  What comes back. The decoded payload is either a mapping, whose fields are those of
  the completion interface, or something else; \<^verbatim>\<open>response.json()\<close> raises when the
  body is not JSON (\<open>json_body = None\<close>), and \<^verbatim>\<open>requests.put\<close> itself raises when no
  response arrives.
\<close>

record completion_response =
  r_text :: "string list"
  r_logprobs :: "real option list list"
  r_is_max_logprobs :: "bool list list"

datatype json = Mapping completion_response | Not_mapping

record http_response =
  status_code :: int
  content :: string
  json_body :: "json option"

datatype put_result = Put_raises | Put_returns http_response

text \<open>
  The server is outside the program: \<open>srv n data\<close> is what the \<open>n\<close>-th request to the
  completion endpoint gets when it carries \<open>data\<close>. The client's effects are the requests
  it has sent and the times it has slept, both in order.
\<close>

type_synonym server = "nat \<Rightarrow> api_data \<Rightarrow> put_result"

record client_state =
  api_calls :: "api_data list"
  sleeps :: "real list"

definition megatron_query_data :: "client \<Rightarrow> completion_kwargs \<Rightarrow> api_data" where
  "megatron_query_data self kw =
     (let data = \<lparr>d_model_name = kw_model_name kw,
                  d_prompts = kw_prompts kw,
                  d_tokens_to_generate = kw_max_tokens kw,
                  d_logprobs = (kw_logprobs kw > 0),
                  d_stop_token = (case kw_stop_token kw of
                                    Some t \<Rightarrow> t
                                  | None \<Rightarrow> eot_token_id self),
                  d_top_k = None,
                  d_temperature = None\<rparr>
      in if kw_temperature kw = 0 then data\<lparr>d_top_k := Some 1\<rparr>
         else (let data = data\<lparr>d_temperature := Some (kw_temperature kw)\<rparr>
               in case kw_top_k kw of
                    Some k \<Rightarrow> data\<lparr>d_top_k := Some k\<rparr>
                  | None \<Rightarrow> data))"

text \<open>The checks of \<^verbatim>\<open>megatron_query\<close> on what \<^verbatim>\<open>requests.put\<close> gave.\<close>

definition megatron_query_check :: "put_result \<Rightarrow> error + completion_response" where
  "megatron_query_check res =
     (case res of
        Put_raises \<Rightarrow> Inl RequestException
      | Put_returns response \<Rightarrow>
          if status_code response \<noteq> 200
          then Inl (StatusException (status_code response) (content response))
          else (case json_body response of
                  None \<Rightarrow> Inl JSONDecodeError
                | Some Not_mapping \<Rightarrow> Inl (UnexpectedResponseException (status_code response))
                | Some (Mapping r) \<Rightarrow> Inr r))"

definition megatron_query ::
  "server \<Rightarrow> client \<Rightarrow> completion_kwargs \<Rightarrow> client_state
   \<Rightarrow> client_state \<times> (error + completion_response)" where
  "megatron_query srv self kw st =
     (let data = megatron_query_data self kw;
          response = srv (length (api_calls st)) data
      in (st\<lparr>api_calls := api_calls st @ [data]\<rparr>, megatron_query_check response))"

text \<open>
  \<^verbatim>\<open>megatron_completion\<close>: the \<^verbatim>\<open>while True\<close> loop, carrying \<^verbatim>\<open>backoff_time\<close>. Every
  exception of \<^verbatim>\<open>megatron_query\<close> is an \<^verbatim>\<open>Exception\<close>, so the \<^verbatim>\<open>except\<close> clause
  catches each of them. The loop need not end: \<open>None\<close> is the run that never returns.
  The back-off time is a real number here (the code multiplies floating-point numbers).
\<close>

partial_function (option) megatron_completion_loop ::
  "server \<Rightarrow> client \<Rightarrow> completion_kwargs \<Rightarrow> real \<Rightarrow> client_state
   \<Rightarrow> (completion_response \<times> client_state) option" where
  "megatron_completion_loop srv self kw backoff_time st =
     (case megatron_query srv self kw st of
        (st', Inr response) \<Rightarrow> Some (response, st')
      | (st', Inl e) \<Rightarrow>
          megatron_completion_loop srv self kw (backoff_time * 1.5)
            (st'\<lparr>sleeps := sleeps st' @ [backoff_time]\<rparr>))"

definition megatron_completion ::
  "server \<Rightarrow> client \<Rightarrow> completion_kwargs \<Rightarrow> client_state
   \<Rightarrow> (completion_response \<times> client_state) option" where
  "megatron_completion srv self kw st = megatron_completion_loop srv self kw 3 st"

subsection \<open>Dispatching one generation group\<close>

text \<open>
  The value of \<^verbatim>\<open>request_args["until"]\<close> is a string or a list of strings.
\<close>

datatype until_value = Until_str string | Until_list "string list"

record request_args =
  until :: until_value





subsection \<open>Reordering the requests\<close>

text \<open>
  Modelled from the spec: the class \<^verbatim>\<open>Reorderer\<close> of \<^verbatim>\<open>lm_eval/utils.py\<close> is not among
  the sources. By section 4.1 it is built from a sequence and a key function and holds
  the elements tagged with their original index (section 9), sorted by key with a stable
  sort.
\<close>

record 'a reorderer =
  r_size :: nat
  arr :: "(nat \<times> 'a) list"

definition Reorderer :: "'a list \<Rightarrow> ('a \<Rightarrow> 'k::linorder) \<Rightarrow> 'a reorderer" where
  "Reorderer xs fn =
     \<lparr>r_size = length xs, arr = sort_key (\<lambda>p. fn (snd p)) (enumerate 0 xs)\<rparr>"

text \<open>
  Modelled from the spec: \<^verbatim>\<open>get_reordered()\<close> gives the same elements sorted by key.
\<close>

definition get_reordered :: "'a reorderer \<Rightarrow> 'a list" where
  "get_reordered r = map snd (arr r)"

text \<open>
  Modelled from the spec: \<^verbatim>\<open>get_original(results)\<close> takes results aligned with the
  reordered sequence and puts each at the original index of its element. A position
  that no result is put at stays \<open>None\<close>.
\<close>

definition get_original :: "'a reorderer \<Rightarrow> 'b list \<Rightarrow> 'b option list" where
  "get_original r newarr =
     fold (\<lambda>(p, v) res. res[fst p := Some v]) (zip (arr r) newarr)
       (replicate (r_size r) None)"

text \<open>
  The two key functions \<^verbatim>\<open>_collate\<close> of the source, for a scoring request
  \<^verbatim>\<open>(cache_key, context_enc, continuation_enc)\<close> and for a generation request
  \<^verbatim>\<open>(context, request_args)\<close>. Python orders tuples, and strings, lexicographically.
\<close>

definition collate_loglikelihood :: "'c \<times> int list \<times> int list \<Rightarrow> int \<times> int list" where
  "collate_loglikelihood x =
     (case x of (cache_key, context_enc, continuation_enc) \<Rightarrow>
        let toks = context_enc @ continuation_enc in (- int (length toks), toks))"

definition collate_greedy_until :: "(string \<Rightarrow> int list) \<Rightarrow> string \<times> 'u \<Rightarrow> int \<times> string" where
  "collate_greedy_until tok_encode x =
     (let toks = tok_encode (fst x) in (int (length toks), fst x))"

subsection \<open>Concrete inputs\<close>

text \<open>
  Inputs at which the functions above are evaluated further down: a client of a server
  that reports \<^verbatim>\<open>max_length = 257\<close> (so that \<^verbatim>\<open>_max_length\<close> is 1), a client of a server
  that reports 2048, and a tokenizer that gives one token for each character.
\<close>

definition tiny_client :: client where
  "tiny_client =
     MegatronServerLM_init
       \<lparr>meta_vocab_size = 50257, meta_eod_token_id = 0, meta_max_length = 257\<rparr>
       ''http://localhost'' ''model'' 20 False"


definition byte_tok_encode :: "string \<Rightarrow> int list" where
  "byte_tok_encode s = map of_char s"

text \<open>Three stop conditions, as the values of \<^verbatim>\<open>request_args\<close> of generation requests.\<close>

definition stop_A :: request_args where
  "stop_A = \<lparr>until = Until_list [''A'']\<rparr>"

definition stop_B :: request_args where
  "stop_B = \<lparr>until = Until_list [''B'']\<rparr>"


text \<open>
  A scoring call and a response to it; a server that answers twice with status 503 and
  then with the response; a server whose first answer has status 200 and a payload
  that is not a mapping; and the state of a client that has done nothing yet.
\<close>

definition example_kwargs :: completion_kwargs where
  "example_kwargs =
     \<lparr>kw_model_name = ''model'', kw_prompts = [[1, 2, 3]], kw_max_tokens = 0,
      kw_temperature = 0, kw_logprobs = 10, kw_top_k = None, kw_stop_token = None\<rparr>"

definition example_response :: completion_response where
  "example_response =
     \<lparr>r_text = [''p1 xyAz''], r_logprobs = [[Some (- 1), Some (- 2)]],
      r_is_max_logprobs = [[True, True]]\<rparr>"

definition busy_then_ok :: server where
  "busy_then_ok n data =
     (if n < 2
      then Put_returns \<lparr>status_code = 503, content = ''busy'', json_body = None\<rparr>
      else Put_returns \<lparr>status_code = 200, content = ''{}'',
                        json_body = Some (Mapping example_response)\<rparr>)"

definition wrong_shape_then_ok :: server where
  "wrong_shape_then_ok n data =
     (if n = 0
      then Put_returns \<lparr>status_code = 200, content = ''[]'', json_body = Some Not_mapping\<rparr>
      else Put_returns \<lparr>status_code = 200, content = ''{}'',
                        json_body = Some (Mapping example_response)\<rparr>)"

definition fresh_state :: client_state where
  "fresh_state = \<lparr>api_calls = [], sleeps = []\<rparr>"

section \<open>Properties\<close>

subsection \<open>Python list primitives\<close>

lemma py_slice_from_nonneg: "0 \<le> i \<Longrightarrow> py_slice_from i xs = drop (nat i) xs"
  by (simp add: py_slice_from_def Let_def min_def)

lemma py_slice_from_neg:
  "i < 0 \<Longrightarrow> py_slice_from i xs = drop (length xs - nat (- i)) xs"
proof -
  assume neg: "i < 0"
  have "nat (max 0 (int (length xs) + i)) = length xs - nat (- i)"
    using neg by (simp add: max_def) linarith
  with neg show ?thesis
    by (simp add: py_slice_from_def Let_def)
qed

lemma py_sum_from_present:
  "None \<notin> set xs \<Longrightarrow> py_sum_from acc xs = Inr (foldl (+) acc (map the xs))"
proof (induction xs arbitrary: acc)
  case Nil
  show ?case by simp
next
  case (Cons x xs)
  then obtain v where "x = Some v" by (cases x) auto
  with Cons show ?case by simp
qed

lemma py_sum_from_absent: "None \<in> set xs \<Longrightarrow> py_sum_from acc xs = Inl TypeError"
proof (induction xs arbitrary: acc)
  case Nil
  then show ?case by simp
next
  case (Cons x xs)
  then show ?case by (cases x) auto
qed

subsection \<open>The greedy flag\<close>

text \<open>
  Entered at a Python index that is in range, the loop never raises, and it answers
  whether every entry it visits is true.
\<close>

lemma py_index_in_range:
  "- int (length xs) \<le> j \<Longrightarrow> j < int (length xs) \<Longrightarrow> py_index xs j = Inr (py_nth xs j)"
  by (auto simp: py_index_def py_nth_def Let_def)

lemma is_greedy_loop_visits:
  "- int (length im) \<le> i \<Longrightarrow>
   is_greedy_loop im i = Inr (\<forall>j. i \<le> j \<and> j < int (length im) \<longrightarrow> py_nth im j)"
proof (induction im i rule: is_greedy_loop.induct)
  case (1 im i)
  show ?case
  proof (cases "i < int (length im)")
    case False
    then show ?thesis
      by (subst is_greedy_loop.simps) auto
  next
    case True
    with "1.prems" have idx: "py_index im i = Inr (py_nth im i)"
      by (rule py_index_in_range)
    show ?thesis
    proof (cases "py_nth im i")
      case False
      with True idx show ?thesis
        by (subst is_greedy_loop.simps) auto
    next
      case b: True
      have step: "is_greedy_loop im (i + 1) =
                  Inr (\<forall>j. i + 1 \<le> j \<and> j < int (length im) \<longrightarrow> py_nth im j)"
        using "1.IH" [OF True idx] b "1.prems" by simp
      have "(\<forall>j. i \<le> j \<and> j < int (length im) \<longrightarrow> py_nth im j) =
            (\<forall>j. i + 1 \<le> j \<and> j < int (length im) \<longrightarrow> py_nth im j)"
      proof -
        have "i \<le> j \<longleftrightarrow> j = i \<or> i + 1 \<le> j" for j by auto
        with b show ?thesis by auto
      qed
      with True idx b step show ?thesis
        by (subst is_greedy_loop.simps) simp
    qed
  qed
qed

lemma visited_entries:
  assumes "- int (length im) \<le> i"
  shows "(\<forall>j. i \<le> j \<and> j < int (length im) \<longrightarrow> py_nth im j) =
         (\<forall>k<length im. i \<le> int k \<longrightarrow> im ! k)"
proof
  assume all: "\<forall>j. i \<le> j \<and> j < int (length im) \<longrightarrow> py_nth im j"
  show "\<forall>k<length im. i \<le> int k \<longrightarrow> im ! k"
  proof (intro allI impI)
    fix k assume "k < length im" "i \<le> int k"
    with all have "py_nth im (int k)" by simp
    then show "im ! k" by (simp add: py_nth_def)
  qed
next
  assume all: "\<forall>k<length im. i \<le> int k \<longrightarrow> im ! k"
  show "\<forall>j. i \<le> j \<and> j < int (length im) \<longrightarrow> py_nth im j"
  proof (intro allI impI)
    fix j assume j: "i \<le> j \<and> j < int (length im)"
    show "py_nth im j"
    proof (cases "j < 0")
      case False
      with j all have "im ! nat j" by (metis nat_less_iff int_nat_eq not_le linorder_not_less nat_int zless_nat_conj)
      with False show ?thesis by (simp add: py_nth_def)
    next
      case True
      define k where "k = nat (int (length im) + j)"
      from True j assms have "k < length im" "i \<le> int k"
        by (auto simp: k_def)
      with all have "im ! k" by simp
      with True show ?thesis by (simp add: py_nth_def k_def)
    qed
  qed
qed

text \<open>
  C3. For every scoring item on which \<^verbatim>\<open>get_result\<close> returns, the flag it returns is
  true if and only if every entry of \<^verbatim>\<open>is_max_logprobs\<close> at an index \<open>\<ge> ctxlen\<close> is
  true: one false entry there makes it false, and the entries before \<open>ctxlen\<close> are not
  read. The loop reads in range as long as \<open>- len(is_max_logprobs) \<le> ctxlen\<close>, and the
  first component is the sum computed from \<^verbatim>\<open>logprobs\<close>.
\<close>

theorem get_result_is_greedy:
  assumes "- int (length is_max_logprobs) \<le> ctxlen"
    and "py_sum (py_slice_from (ctxlen - 1) logprobs) = Inr s"
  shows "get_result logprobs is_max_logprobs ctxlen =
         Inr (s, \<forall>i<length is_max_logprobs. ctxlen \<le> int i \<longrightarrow> is_max_logprobs ! i)"
proof -
  have "is_greedy_loop is_max_logprobs ctxlen =
        Inr (\<forall>i<length is_max_logprobs. ctxlen \<le> int i \<longrightarrow> is_max_logprobs ! i)"
    using is_greedy_loop_visits [OF assms(1)] visited_entries [OF assms(1)] by simp
  with assms(2) show ?thesis
    by (simp add: get_result_def)
qed

theorem get_result_is_greedy_witness:
  "- int (length [True, False, True, True]) \<le> 2
   \<and> py_sum (py_slice_from (2 - 1) [Some 1, Some 2, Some 4, Some (8::int)]) = Inr 14
   \<and> get_result [Some 1, Some 2, Some 4, Some (8::int)] [True, False, True, True] 2
       = Inr (14, True)
   \<and> get_result [Some 1, Some 2, Some 4, Some (8::int)] [True, True, True, False] 2
       = Inr (14, False)"
proof -
  have len: "- int (length [True, False, True, True]) \<le> 2"
    and len': "- int (length [True, True, True, False]) \<le> 2"
    by simp_all
  have s: "py_sum (py_slice_from (2 - 1) [Some 1, Some 2, Some 4, Some (8::int)]) = Inr 14"
    by (simp add: py_sum_def py_slice_from_def)
  show ?thesis
    using len s get_result_is_greedy [OF len s] get_result_is_greedy [OF len' s]
    by (simp add: All_less_Suc)
qed

text \<open>
  C2, as the code has it. \<^verbatim>\<open>get_result\<close> sums \<^verbatim>\<open>logprobs[ctxlen - 1:]\<close>: for
  \<open>ctxlen \<ge> 1\<close> these are the entries from index \<open>ctxlen - 1\<close> on, that is the last
  \<open>len(logprobs) - ctxlen + 1\<close> entries, added from left to right starting from \<open>0\<close>.
  The entry at index \<open>ctxlen - 1\<close> is part of the sum, no entry before it is.
\<close>

theorem get_result_sum:
  assumes "1 \<le> ctxlen"
    and "None \<notin> set (drop (nat (ctxlen - 1)) logprobs)"
  shows "\<exists>is_greedy. get_result logprobs is_max_logprobs ctxlen =
           Inr (foldl (+) 0 (map the (drop (nat (ctxlen - 1)) logprobs)), is_greedy)"
proof -
  from assms(1) have "- int (length is_max_logprobs) \<le> ctxlen" by simp
  from is_greedy_loop_visits [OF this]
  obtain g where g: "is_greedy_loop is_max_logprobs ctxlen = Inr g" by blast
  from assms(1) have "py_slice_from (ctxlen - 1) logprobs = drop (nat (ctxlen - 1)) logprobs"
    by (simp add: py_slice_from_nonneg)
  with assms(2) g show ?thesis
    by (simp add: get_result_def py_sum_def py_sum_from_present)
qed

theorem get_result_sum_witness:
  "(1::int) \<le> 2
   \<and> None \<notin> set (drop (nat (2 - 1)) [None, Some 2, Some 4, Some (8::int)])
   \<and> (\<exists>is_greedy. get_result [None, Some 2, Some 4, Some (8::int)] [True, True, True, True] 2
         = Inr (14, is_greedy))"
proof -
  have c: "(1::int) \<le> 2" by simp
  have p: "None \<notin> set (drop (nat (2 - 1)) [None, Some 2, Some 4, Some (8::int)])" by simp
  show ?thesis
    using c p get_result_sum [OF c p, of "[True, True, True, True]"] by simp
qed

text \<open>
  C2, as the specification states it, fails. With three log-probabilities and
  \<open>ctxlen = 1\<close> the continuation length \<open>len(logprobs) - ctxlen\<close> is 2 and the last two
  entries sum to \<open>2 + 4 = 6\<close>, but the code returns \<open>1 + 2 + 4 = 7\<close>: it includes the entry
  at index \<open>0 < ctxlen\<close>.
\<close>

theorem get_result_sum_counterexample:
  "get_result [Some 1, Some 2, Some (4::int)] [True, True, True] 1 = Inr (7, True)
   \<and> foldl (+) 0 (map the (drop 1 [Some 1, Some 2, Some (4::int)])) = 6"
  by (simp add: get_result_def py_sum_def py_slice_from_def is_greedy_loop.simps py_index_def)

subsection \<open>Truncation of the inputs\<close>

lemma py_slice_from_last:
  "0 < k \<Longrightarrow> py_slice_from (- k) xs = drop (length xs - nat k) xs"
  using py_slice_from_neg [of "- k" xs] by simp

text \<open>
  C4, as the code has it. For a scoring item with a window \<open>max_length \<ge> 0\<close>, a
  continuation of \<open>L \<le> max_length + 1\<close> tokens and \<open>C + L > max_length + 1\<close>, the
  dispatched input is the last \<open>max_length + 1\<close> tokens of context followed by
  continuation, \<open>ctxlen\<close> is exactly \<open>max_length + 1 - L\<close>, and the input is the last
  \<open>ctxlen\<close> tokens of the context followed by the whole continuation.
\<close>

theorem loglikelihood_truncation:
  assumes "0 \<le> max_length self"
    and "int (length continuation_enc) \<le> max_length self + 1"
    and "max_length self + 1 < int (length context_enc) + int (length continuation_enc)"
  shows "\<exists>inp ctxlen.
           loglikelihood_tokens_inp self (cache_key, context_enc, continuation_enc) = (inp, ctxlen)
         \<and> inp = drop (length (context_enc @ continuation_enc) - nat (max_length self + 1))
                   (context_enc @ continuation_enc)
         \<and> int (length inp) = max_length self + 1
         \<and> ctxlen = max_length self + 1 - int (length continuation_enc)
         \<and> inp = drop (length context_enc - nat ctxlen) context_enc @ continuation_enc"
proof -
  let ?M = "max_length self + 1"
  let ?C = "length context_enc" and ?L = "length continuation_enc"
  from assms(1) have pos: "0 < ?M" by simp
  have inp: "py_slice_from (- ?M) (context_enc @ continuation_enc)
             = drop (length (context_enc @ continuation_enc) - nat ?M) (context_enc @ continuation_enc)"
    using pos by (rule py_slice_from_last)
  have ctx: "int ?C - max 0 (int ?C + int ?L - ?M) = ?M - int ?L"
    using assms(3) by (simp add: max_def)
  have cut: "length (context_enc @ continuation_enc) - nat ?M = ?C - nat (?M - int ?L)"
    using assms by simp
  have le: "?C - nat (?M - int ?L) \<le> ?C" by simp
  have len: "int (length (drop (length (context_enc @ continuation_enc) - nat ?M)
                (context_enc @ continuation_enc))) = ?M"
    using assms by simp
  show ?thesis
    unfolding loglikelihood_tokens_inp_def Let_def prod.case inp ctx
    using len cut le by (simp del: length_append length_drop)
qed

theorem loglikelihood_truncation_witness:
  "0 \<le> max_length tiny_client
   \<and> int (length [7, 8 :: int]) \<le> max_length tiny_client + 1
   \<and> max_length tiny_client + 1 < int (length [1, 2, 3 :: int]) + int (length [7, 8 :: int])
   \<and> loglikelihood_tokens_inp tiny_client ((), [1, 2, 3], [7, 8]) = ([7, 8], 0)"
proof -
  have m: "max_length tiny_client = 1"
    by (simp add: tiny_client_def MegatronServerLM_init_def max_gen_toks_def)
  have h1: "0 \<le> max_length tiny_client"
    and h2: "int (length [7, 8 :: int]) \<le> max_length tiny_client + 1"
    and h3: "max_length tiny_client + 1 < int (length [1, 2, 3 :: int]) + int (length [7, 8 :: int])"
    by (simp_all add: m)
  show ?thesis
    using h1 h2 h3 loglikelihood_truncation [OF h1 h2 h3, of "()"]
    by (simp add: m)
qed

text \<open>
  C4, as the specification states it, fails where the continuation alone is longer than
  \<open>max_length + 1\<close>. With \<open>max_length = 1\<close>, the context \<open>[1]\<close> and the continuation
  \<open>[2, 3, 4]\<close> have \<open>C + L = 4 > 2\<close>; the input is \<open>[3, 4]\<close>, so the continuation token
  \<open>2\<close> is cut, and \<open>ctxlen\<close> is \<open>-1\<close>.
\<close>

theorem loglikelihood_truncation_counterexample:
  "max_length tiny_client + 1 < int (length [1 :: int]) + int (length [2, 3, 4 :: int])
   \<and> loglikelihood_tokens_inp tiny_client ((), [1], [2, 3, 4]) = ([3, 4], - 1)"
  by (simp add: loglikelihood_tokens_inp_def tiny_client_def MegatronServerLM_init_def
      max_gen_toks_def py_slice_from_def)

text \<open>
  C10, as the code has it. On a client built from a server that reports
  \<open>max_length = M\<close> with \<open>M > 2 * 256\<close>, the prompt dispatched for a generation request
  is the last \<open>M - 2 * 256\<close> tokens of the encoded context: \<^verbatim>\<open>max_gen_toks\<close> is
  subtracted once in the constructor and once more at dispatch.
\<close>

theorem greedy_until_prompt:
  assumes "2 * 256 < meta_max_length meta"
  shows "greedy_until_inp (MegatronServerLM_init meta url name bsz trunc) tok_encode context
         = drop (length (tok_encode context) - nat (meta_max_length meta - 2 * 256))
             (tok_encode context)"
  using assms py_slice_from_last [of "meta_max_length meta - 2 * 256" "tok_encode context"]
  by (simp add: greedy_until_inp_def MegatronServerLM_init_def max_gen_toks_def)

theorem greedy_until_prompt_witness:
  "2 * 256 < meta_max_length
               \<lparr>meta_vocab_size = 50257, meta_eod_token_id = 0, meta_max_length = 515\<rparr>
   \<and> greedy_until_inp
        (MegatronServerLM_init
           \<lparr>meta_vocab_size = 50257, meta_eod_token_id = 0, meta_max_length = 515\<rparr>
           ''http://localhost'' ''model'' 20 False)
        byte_tok_encode ''hello'' = [108, 108, 111]"
proof -
  have h: "2 * 256 < meta_max_length
             \<lparr>meta_vocab_size = 50257, meta_eod_token_id = 0, meta_max_length = 515\<rparr>"
    by simp
  show ?thesis
    using h greedy_until_prompt [OF h, of "''http://localhost''" "''model''" 20 False
        byte_tok_encode "''hello''"]
    by (simp add: byte_tok_encode_def)
qed

text \<open>
  C10, as stated for every request, fails at \<open>M = 2 * 256\<close>: the slice
  \<^verbatim>\<open>context_enc[-0:]\<close> is the whole list, so all three tokens are dispatched where the
  last \<open>M - 2 * 256 = 0\<close> tokens would be none.
\<close>

theorem greedy_until_prompt_counterexample:
  "greedy_until_inp
     (MegatronServerLM_init
        \<lparr>meta_vocab_size = 50257, meta_eod_token_id = 0, meta_max_length = 2 * 256\<rparr>
        ''http://localhost'' ''model'' 20 False)
     byte_tok_encode ''abc'' = [97, 98, 99]"
  by (simp add: greedy_until_inp_def MegatronServerLM_init_def max_gen_toks_def
      py_slice_from_def byte_tok_encode_def)

subsection \<open>The chunker\<close>

lemma sameuntil_loop_concat:
  "concat (map fst (sameuntil_loop xs sz ret u)) = ret @ xs"
  by (induction xs arbitrary: ret u) auto

lemma sameuntil_loop_same:
  "\<forall>y\<in>set ret. snd y = u \<Longrightarrow>
   \<forall>g\<in>set (sameuntil_loop xs sz ret u). \<forall>y\<in>set (fst g). snd y = snd g"
proof (induction xs arbitrary: ret u)
  case Nil
  then show ?case by simp
next
  case (Cons x xs)
  show ?case
  proof (cases "sz \<le> int (length ret) \<or> snd x \<noteq> u")
    case True
    have "\<forall>g\<in>set (sameuntil_loop xs sz [x] (snd x)). \<forall>y\<in>set (fst g). snd y = snd g"
      by (rule Cons.IH) simp
    with True Cons.prems show ?thesis by simp
  next
    case False
    have "\<forall>g\<in>set (sameuntil_loop xs sz (ret @ [x]) u). \<forall>y\<in>set (fst g). snd y = snd g"
      using Cons.prems False by (intro Cons.IH) auto
    with False show ?thesis by simp
  qed
qed

lemma sameuntil_loop_size:
  "int (length ret) \<le> max 1 sz \<Longrightarrow>
   \<forall>g\<in>set (sameuntil_loop xs sz ret u). int (length (fst g)) \<le> max 1 sz"
proof (induction xs arbitrary: ret u)
  case Nil
  then show ?case by simp
next
  case (Cons x xs)
  show ?case
  proof (cases "sz \<le> int (length ret) \<or> snd x \<noteq> u")
    case True
    have "\<forall>g\<in>set (sameuntil_loop xs sz [x] (snd x)). int (length (fst g)) \<le> max 1 sz"
      by (rule Cons.IH) simp
    with True Cons.prems show ?thesis by simp
  next
    case False
    have "\<forall>g\<in>set (sameuntil_loop xs sz (ret @ [x]) u). int (length (fst g)) \<le> max 1 sz"
      using False by (intro Cons.IH) auto
    with False show ?thesis by simp
  qed
qed

lemma sameuntil_loop_not_Nil: "ret \<noteq> [] \<Longrightarrow> sameuntil_loop xs sz ret u \<noteq> []"
  by (induction xs arbitrary: ret u) auto

lemma sameuntil_loop_hd:
  "sameuntil_loop xs sz ret u \<noteq> [] \<Longrightarrow> snd (hd (sameuntil_loop xs sz ret u)) = u"
  by (induction xs arbitrary: ret) (auto split: if_splits)

lemma sameuntil_loop_forced:
  "successively (\<lambda>g h. sz \<le> int (length (fst g)) \<or> snd g \<noteq> snd h)
     (sameuntil_loop xs sz ret u)"
proof (induction xs arbitrary: ret u)
  case Nil
  show ?case by simp
next
  case (Cons x xs)
  show ?case
  proof (cases "sz \<le> int (length ret) \<or> snd x \<noteq> u")
    case False
    with Cons show ?thesis by simp
  next
    case True
    have ne: "sameuntil_loop xs sz [x] (snd x) \<noteq> []"
      by (rule sameuntil_loop_not_Nil) simp
    then have "snd (hd (sameuntil_loop xs sz [x] (snd x))) = snd x"
      by (rule sameuntil_loop_hd)
    with True ne Cons.IH [of "[x]" "snd x"] show ?thesis
      by (auto simp add: successively_Cons)
  qed
qed

lemma sameuntil_loop_nonempty:
  "ret \<noteq> [] \<or> (1 \<le> sz \<and> (xs = [] \<or> snd (hd xs) = u)) \<Longrightarrow>
   \<forall>g\<in>set (sameuntil_loop xs sz ret u). fst g \<noteq> []"
proof (induction xs arbitrary: ret u)
  case Nil
  then show ?case by simp
next
  case (Cons x xs)
  show ?case
  proof (cases "sz \<le> int (length ret) \<or> snd x \<noteq> u")
    case True
    have "\<forall>g\<in>set (sameuntil_loop xs sz [x] (snd x)). fst g \<noteq> []"
      by (rule Cons.IH) simp
    moreover from True Cons.prems have "ret \<noteq> []" by auto
    ultimately show ?thesis using True by simp
  next
    case False
    have "\<forall>g\<in>set (sameuntil_loop xs sz (ret @ [x]) u). fst g \<noteq> []"
      by (rule Cons.IH) simp
    with False show ?thesis by simp
  qed
qed

text \<open>
  C7. On a non-empty sequence the chunker returns groups that, concatenated, are the
  sequence itself; every item of a group has the group's stop-sequence attribute, so
  items with different attributes are never merged; no group is longer than the batch
  size (than one item, if the batch size is below one), so a longer run of one attribute
  is split; with a batch size of at least one no group is empty; and a boundary between
  two adjacent groups is there only because the first has reached the batch size or the
  attribute changes. For the attributes \<open>A, A, B, A\<close> and batch size 10 the groups are
  exactly \<open>[A, A], [B], [A]\<close>; five items of one attribute and batch size 2 give
  groups of 2, 2 and 1.
\<close>

theorem sameuntil_chunks_groups:
  "(xs \<noteq> [] \<longrightarrow>
      (\<exists>groups. sameuntil_chunks xs sz = Inr groups
         \<and> concat (map fst groups) = xs
         \<and> (\<forall>g\<in>set groups. \<forall>y\<in>set (fst g). snd y = snd g)
         \<and> (\<forall>g\<in>set groups. int (length (fst g)) \<le> max 1 sz)
         \<and> (1 \<le> sz \<longrightarrow> (\<forall>g\<in>set groups. fst g \<noteq> []))
         \<and> successively (\<lambda>g h. sz \<le> int (length (fst g)) \<or> snd g \<noteq> snd h) groups))
   \<and> sameuntil_chunks
        [(''p1'', stop_A), (''p2'', stop_A), (''p3'', stop_B), (''p4'', stop_A)] 10
      = Inr [([(''p1'', stop_A), (''p2'', stop_A)], stop_A),
             ([(''p3'', stop_B)], stop_B),
             ([(''p4'', stop_A)], stop_A)]
   \<and> sameuntil_chunks
        [(''p1'', stop_A), (''p2'', stop_A), (''p3'', stop_A), (''p4'', stop_A), (''p5'', stop_A)] 2
      = Inr [([(''p1'', stop_A), (''p2'', stop_A)], stop_A),
             ([(''p3'', stop_A), (''p4'', stop_A)], stop_A),
             ([(''p5'', stop_A)], stop_A)]"
proof (intro conjI impI)
  assume "xs \<noteq> []"
  then obtain x rest where xs: "xs = x # rest" by (cases xs) auto
  let ?groups = "sameuntil_loop xs sz [] (snd x)"
  have "sameuntil_chunks xs sz = Inr ?groups"
    by (simp add: sameuntil_chunks_def xs)
  moreover have "concat (map fst ?groups) = xs"
    by (simp add: sameuntil_loop_concat)
  moreover have "\<forall>g\<in>set ?groups. \<forall>y\<in>set (fst g). snd y = snd g"
    by (rule sameuntil_loop_same) simp
  moreover have "\<forall>g\<in>set ?groups. int (length (fst g)) \<le> max 1 sz"
    by (rule sameuntil_loop_size) simp
  moreover have "1 \<le> sz \<longrightarrow> (\<forall>g\<in>set ?groups. fst g \<noteq> [])"
    using sameuntil_loop_nonempty [of "[]" sz xs "snd x"] by (simp add: xs)
  moreover have "successively (\<lambda>g h. sz \<le> int (length (fst g)) \<or> snd g \<noteq> snd h) ?groups"
    by (rule sameuntil_loop_forced)
  ultimately show "\<exists>groups. sameuntil_chunks xs sz = Inr groups
         \<and> concat (map fst groups) = xs
         \<and> (\<forall>g\<in>set groups. \<forall>y\<in>set (fst g). snd y = snd g)
         \<and> (\<forall>g\<in>set groups. int (length (fst g)) \<le> max 1 sz)
         \<and> (1 \<le> sz \<longrightarrow> (\<forall>g\<in>set groups. fst g \<noteq> []))
         \<and> successively (\<lambda>g h. sz \<le> int (length (fst g)) \<or> snd g \<noteq> snd h) groups"
    by blast
next
  have ne: "stop_B \<noteq> stop_A" by (simp add: stop_A_def stop_B_def)
  show "sameuntil_chunks
        [(''p1'', stop_A), (''p2'', stop_A), (''p3'', stop_B), (''p4'', stop_A)] 10
      = Inr [([(''p1'', stop_A), (''p2'', stop_A)], stop_A),
             ([(''p3'', stop_B)], stop_B),
             ([(''p4'', stop_A)], stop_A)]"
    using ne by (simp add: sameuntil_chunks_def ne [symmetric])
next
  show "sameuntil_chunks
        [(''p1'', stop_A), (''p2'', stop_A), (''p3'', stop_A), (''p4'', stop_A), (''p5'', stop_A)] 2
      = Inr [([(''p1'', stop_A), (''p2'', stop_A)], stop_A),
             ([(''p3'', stop_A), (''p4'', stop_A)], stop_A),
             ([(''p5'', stop_A)], stop_A)]"
    by (simp add: sameuntil_chunks_def)
qed


theorem sameuntil_chunks_groups_witness:
  "[(''p1'', stop_A), (''p2'', stop_A), (''p3'', stop_B), (''p4'', stop_A)] \<noteq> []
   \<and> (\<exists>groups.
         sameuntil_chunks
           [(''p1'', stop_A), (''p2'', stop_A), (''p3'', stop_B), (''p4'', stop_A)] 10
         = Inr groups
       \<and> concat (map fst groups)
         = [(''p1'', stop_A), (''p2'', stop_A), (''p3'', stop_B), (''p4'', stop_A)]
       \<and> (\<forall>g\<in>set groups. \<forall>y\<in>set (fst g). snd y = snd g)
       \<and> (\<forall>g\<in>set groups. int (length (fst g)) \<le> 10)
       \<and> (\<forall>g\<in>set groups. fst g \<noteq> []))"
  using sameuntil_chunks_groups
    [of "[(''p1'', stop_A), (''p2'', stop_A), (''p3'', stop_B), (''p4'', stop_A)]" 10]
  by simp

subsection \<open>Cutting the generated text\<close>

lemma startswith_iff: "startswith s t \<longleftrightarrow> occurs_at t s 0"
  by (induction s t rule: startswith.induct) (auto simp: occurs_at_def)

lemma startswith_append: "startswith (p @ r) p"
  by (induction p) auto

lemma removeprefix_append: "removeprefix (p @ r) p = r"
  by (simp add: removeprefix_def startswith_append)

lemma occurs_at_Cons: "occurs_at t (c # cs) (Suc i) \<longleftrightarrow> occurs_at t cs i"
  by (simp add: occurs_at_def)

lemma occurs_at_take:
  "n \<le> length s \<Longrightarrow> occurs_at t (take n s) j \<longleftrightarrow> occurs_at t s j \<and> j + length t \<le> n"
proof -
  assume n: "n \<le> length s"
  have "take (length t) (drop j (take n s)) = take (length t) (drop j s)"
    if "j + length t \<le> n"
    using that by (simp add: drop_take)
  with n show ?thesis
    by (auto simp: occurs_at_def)
qed

lemma before_first_cut:
  "\<exists>n\<le>length s. before_first s t = take n s
      \<and> (n < length s \<longrightarrow> occurs_at t s n)
      \<and> (\<forall>j<n. \<not> occurs_at t s j)"
proof (induction s)
  case Nil
  show ?case by simp
next
  case (Cons c cs)
  show ?case
  proof (cases "startswith (c # cs) t")
    case True
    then have "occurs_at t (c # cs) 0" by (simp add: startswith_iff)
    with True show ?thesis by (intro exI [of _ 0]) simp
  next
    case False
    then have no0: "\<not> occurs_at t (c # cs) 0" by (simp add: startswith_iff)
    from Cons obtain n where n: "n \<le> length cs" "before_first cs t = take n cs"
      "n < length cs \<longrightarrow> occurs_at t cs n" "\<forall>j<n. \<not> occurs_at t cs j" by blast
    have "\<forall>j<Suc n. \<not> occurs_at t (c # cs) j"
    proof (intro allI impI)
      fix j assume "j < Suc n"
      with no0 n(4) show "\<not> occurs_at t (c # cs) j"
        by (cases j) (auto simp: occurs_at_Cons)
    qed
    with False n show ?thesis
      by (intro exI [of _ "Suc n"]) (simp add: occurs_at_Cons)
  qed
qed

lemma cut_until_cut:
  assumes "[] \<notin> set ts"
  shows "\<exists>n\<le>length s. cut_until s ts = Inr (take n s)
      \<and> (n < length s \<longrightarrow> (\<exists>t\<in>set ts. occurs_at t s n))
      \<and> (\<forall>t\<in>set ts. \<forall>j. occurs_at t s j \<longrightarrow> n < j + length t)
      \<and> (\<forall>t j. ts \<noteq> [] \<and> t = hd ts \<and> j < n \<longrightarrow> \<not> occurs_at t s j)"
  using assms
proof (induction ts arbitrary: s)
  case Nil
  show ?case by (intro exI [of _ "length s"]) simp
next
  case (Cons t ts)
  then have t: "t \<noteq> []" and ts: "[] \<notin> set ts" by auto
  from before_first_cut [of s t] obtain n1 where n1: "n1 \<le> length s"
    "before_first s t = take n1 s" "n1 < length s \<longrightarrow> occurs_at t s n1"
    "\<forall>j<n1. \<not> occurs_at t s j" by blast
  have len: "length (take n1 s) = n1"
    using n1(1) by simp
  from Cons.IH [OF ts, of "take n1 s"] obtain n2 where "n2 \<le> length (take n1 s)"
    "cut_until (take n1 s) ts = Inr (take n2 (take n1 s))"
    "n2 < length (take n1 s) \<longrightarrow> (\<exists>u\<in>set ts. occurs_at u (take n1 s) n2)"
    "\<forall>u\<in>set ts. \<forall>j. occurs_at u (take n1 s) j \<longrightarrow> n2 < j + length u"
    by blast
  then have n2: "n2 \<le> n1"
    "cut_until (take n1 s) ts = Inr (take n2 (take n1 s))"
    "n2 < n1 \<longrightarrow> (\<exists>u\<in>set ts. occurs_at u (take n1 s) n2)"
    "\<forall>u\<in>set ts. \<forall>j. occurs_at u (take n1 s) j \<longrightarrow> n2 < j + length u"
    unfolding len by blast+
  have res: "cut_until s (t # ts) = Inr (take n2 s)"
    using t n1(2) n2(1,2) by (simp add: split_head_def min_def)
  have start: "n2 < length s \<longrightarrow> (\<exists>u\<in>set (t # ts). occurs_at u s n2)"
  proof
    assume lt: "n2 < length s"
    show "\<exists>u\<in>set (t # ts). occurs_at u s n2"
    proof (cases "n2 < n1")
      case True
      with n2(3) n1(1) show ?thesis by (auto simp: occurs_at_take)
    next
      case False
      with n2(1) have "n2 = n1" by simp
      with lt n1(3) show ?thesis by simp
    qed
  qed
  have t_before: "\<forall>j<n2. \<not> occurs_at t s j"
    using n1(4) n2(1) by auto
  have inside: "\<forall>u\<in>set (t # ts). \<forall>j. occurs_at u s j \<longrightarrow> n2 < j + length u"
  proof (intro ballI allI impI)
    fix u j assume u: "u \<in> set (t # ts)" and occ: "occurs_at u s j"
    show "n2 < j + length u"
    proof (cases "u = t")
      case True
      with occ t_before have "\<not> j < n2" by auto
      with t True show ?thesis by (cases t) auto
    next
      case False
      with u have uts: "u \<in> set ts" by simp
      show ?thesis
      proof (cases "j + length u \<le> n1")
        case True
        with occ n1(1) have "occurs_at u (take n1 s) j" by (simp add: occurs_at_take)
        with n2(4) uts show ?thesis by blast
      next
        case False
        with n2(1) show ?thesis by simp
      qed
    qed
  qed
  from n1(1) n2(1) res start inside t_before show ?case
    by (intro exI [of _ n2]) auto
qed

lemma startswith_append_iff: "startswith s p \<longleftrightarrow> (\<exists>r. s = p @ r)"
proof
  assume "startswith s p"
  then have "length p \<le> length s" "take (length p) s = p"
    by (simp_all add: startswith_iff occurs_at_def)
  then have "s = p @ drop (length p) s"
    by (metis append_take_drop_id)
  then show "\<exists>r. s = p @ r" ..
next
  assume "\<exists>r. s = p @ r"
  then show "startswith s p" by (auto simp: startswith_append)
qed

lemma before_first_least:
  assumes "t \<noteq> []"
  shows "before_first s t = take (LEAST j. occurs_at t s j \<or> j = length s) s"
proof -
  from before_first_cut [of s t] obtain n where n: "n \<le> length s"
    "before_first s t = take n s" "n < length s \<longrightarrow> occurs_at t s n"
    "\<forall>j<n. \<not> occurs_at t s j" by blast
  have "(LEAST j. occurs_at t s j \<or> j = length s) = n"
  proof (rule Least_equality)
    from n(1,3) show "occurs_at t s n \<or> n = length s" by auto
  next
    fix j assume "occurs_at t s j \<or> j = length s"
    with n(1,4) show "n \<le> j" by (metis not_le_imp_less)
  qed
  with n(2) show ?thesis by simp
qed

lemma cut_until_fold:
  assumes "[] \<notin> set ts"
  shows "cut_until s ts
         = Inr (fold (\<lambda>t s. take (LEAST j. occurs_at t s j \<or> j = length s) s) ts s)"
  using assms
proof (induction ts arbitrary: s)
  case Nil
  show ?case by simp
next
  case (Cons t ts)
  then have "t \<noteq> []" "[] \<notin> set ts" by auto
  with Cons.IH [of "before_first s t"] show ?case
    by (simp add: split_head_def before_first_least)
qed

text \<open>
  C8, as the code has it. When no stop sequence is empty, the result is the
  de-prefixed text (the generated text without the echoed context when it starts with
  it, the generated text itself otherwise) cut once for each stop sequence, in the order
  of the list, at the first occurrence of that stop sequence in what the earlier cuts
  have left (not cut when it does not occur there). Hence the result is a prefix of
  the de-prefixed text whose end \<open>n\<close> is the start of an occurrence of one of the stop
  sequences in the de-prefixed text, unless nothing is cut; \<open>n\<close> lies before the end of
  every occurrence of every stop sequence, so no stop sequence occurs in the result and
  \<open>n\<close> is not before the minimum starting index; and the first stop sequence of the list
  does not occur before \<open>n\<close>, so for a single stop sequence the cut is at its first
  occurrence.
\<close>

theorem greedy_until_text_cut:
  assumes "[] \<notin> set until_list"
  shows "(\<forall>rest. text = context @ rest \<longrightarrow> removeprefix text context = rest)
       \<and> ((\<forall>rest. text \<noteq> context @ rest) \<longrightarrow> removeprefix text context = text)
       \<and> greedy_until_text text context until_list
         = Inr (fold (\<lambda>t s. take (LEAST j. occurs_at t s j \<or> j = length s) s)
                  until_list (removeprefix text context))
       \<and> (\<exists>n\<le>length (removeprefix text context).
            greedy_until_text text context until_list
            = Inr (take n (removeprefix text context))
          \<and> (n < length (removeprefix text context) \<longrightarrow>
               (\<exists>t\<in>set until_list. occurs_at t (removeprefix text context) n))
          \<and> (\<forall>t\<in>set until_list. \<forall>j.
                 occurs_at t (removeprefix text context) j \<longrightarrow> n < j + length t)
          \<and> (\<forall>j<n. until_list \<noteq> [] \<longrightarrow>
                 \<not> occurs_at (hd until_list) (removeprefix text context) j))"
proof (intro conjI)
  show "\<forall>rest. text = context @ rest \<longrightarrow> removeprefix text context = rest"
    by (simp add: removeprefix_append)
next
  show "(\<forall>rest. text \<noteq> context @ rest) \<longrightarrow> removeprefix text context = text"
    by (simp add: removeprefix_def startswith_append_iff)
next
  show "greedy_until_text text context until_list
         = Inr (fold (\<lambda>t s. take (LEAST j. occurs_at t s j \<or> j = length s) s)
                  until_list (removeprefix text context))"
    unfolding greedy_until_text_def using assms by (rule cut_until_fold)
next
  from cut_until_cut [OF assms, of "removeprefix text context"]
  obtain n where "n \<le> length (removeprefix text context)"
    "cut_until (removeprefix text context) until_list = Inr (take n (removeprefix text context))"
    "n < length (removeprefix text context) \<longrightarrow>
       (\<exists>t\<in>set until_list. occurs_at t (removeprefix text context) n)"
    "\<forall>t\<in>set until_list. \<forall>j. occurs_at t (removeprefix text context) j \<longrightarrow> n < j + length t"
    "\<forall>t j. until_list \<noteq> [] \<and> t = hd until_list \<and> j < n \<longrightarrow>
       \<not> occurs_at t (removeprefix text context) j"
    by blast
  then show "\<exists>n\<le>length (removeprefix text context).
            greedy_until_text text context until_list
            = Inr (take n (removeprefix text context))
          \<and> (n < length (removeprefix text context) \<longrightarrow>
               (\<exists>t\<in>set until_list. occurs_at t (removeprefix text context) n))
          \<and> (\<forall>t\<in>set until_list. \<forall>j.
                 occurs_at t (removeprefix text context) j \<longrightarrow> n < j + length t)
          \<and> (\<forall>j<n. until_list \<noteq> [] \<longrightarrow>
                 \<not> occurs_at (hd until_list) (removeprefix text context) j)"
    unfolding greedy_until_text_def by (intro exI [of _ n]) simp
qed

theorem greedy_until_text_cut_witness:
  "[] \<notin> set [''cd'', ''bc'']
   \<and> removeprefix ''Q: abcd'' ''Q: '' = ''abcd''
   \<and> greedy_until_text ''Q: abcd'' ''Q: '' [''cd'', ''bc''] = Inr ''ab''
   \<and> fold (\<lambda>t s. take (LEAST j. occurs_at t s j \<or> j = length s) s) [''cd'', ''bc''] ''abcd''
     = ''ab''
   \<and> (\<exists>n\<le>length ''abcd''.
         ''ab'' = take n ''abcd''
       \<and> (\<forall>t\<in>set [''cd'', ''bc'']. \<forall>j. occurs_at t ''abcd'' j \<longrightarrow> n < j + length t))"
proof -
  have h: "[] \<notin> set [''cd'', ''bc'']" by simp
  have ev: "greedy_until_text ''Q: abcd'' ''Q: '' [''cd'', ''bc''] = Inr ''ab''"
    by (simp add: greedy_until_text_def removeprefix_def split_head_def)
  note inst = greedy_until_text_cut [OF h, of "''Q: abcd''" "''Q: ''"]
  from inst have "\<forall>rest. ''Q: abcd'' = ''Q: '' @ rest \<longrightarrow> removeprefix ''Q: abcd'' ''Q: '' = rest"
    by blast
  then have rp: "removeprefix ''Q: abcd'' ''Q: '' = ''abcd''"
    by simp
  from inst have "greedy_until_text ''Q: abcd'' ''Q: '' [''cd'', ''bc'']
      = Inr (fold (\<lambda>t s. take (LEAST j. occurs_at t s j \<or> j = length s) s)
               [''cd'', ''bc''] (removeprefix ''Q: abcd'' ''Q: ''))"
    by blast
  with ev rp have fd: "fold (\<lambda>t s. take (LEAST j. occurs_at t s j \<or> j = length s) s)
                         [''cd'', ''bc''] ''abcd'' = ''ab''"
    by simp
  from inst obtain n where "n \<le> length (removeprefix ''Q: abcd'' ''Q: '')"
    "greedy_until_text ''Q: abcd'' ''Q: '' [''cd'', ''bc'']
     = Inr (take n (removeprefix ''Q: abcd'' ''Q: ''))"
    "\<forall>t\<in>set [''cd'', ''bc'']. \<forall>j.
       occurs_at t (removeprefix ''Q: abcd'' ''Q: '') j \<longrightarrow> n < j + length t"
    by blast
  with ev rp have "\<exists>n\<le>length ''abcd''.
         ''ab'' = take n ''abcd''
       \<and> (\<forall>t\<in>set [''cd'', ''bc'']. \<forall>j. occurs_at t ''abcd'' j \<longrightarrow> n < j + length t)"
    by (intro exI [of _ n]) simp
  with h rp ev fd show ?thesis by blast
qed

text \<open>
  C8, as the specification states it, fails when occurrences of two stop sequences
  overlap. After the context \<open>Q: \<close> the text is \<open>abcd\<close>; the stop sequence \<open>bc\<close> occurs
  at index 1 and \<open>cd\<close> at index 2, neither at index 0, so the minimum starting index is
  1 and the cut there would leave \<open>a\<close>. The code cuts at \<open>cd\<close> first, finds no \<open>bc\<close> in
  what is left, and returns \<open>ab\<close>.
\<close>

theorem greedy_until_text_cut_counterexample:
  "removeprefix ''Q: abcd'' ''Q: '' = ''abcd''
   \<and> occurs_at ''bc'' ''abcd'' 1 \<and> occurs_at ''cd'' ''abcd'' 2
   \<and> \<not> occurs_at ''bc'' ''abcd'' 0 \<and> \<not> occurs_at ''cd'' ''abcd'' 0
   \<and> take 1 ''abcd'' = ''a''
   \<and> greedy_until_text ''Q: abcd'' ''Q: '' [''cd'', ''bc''] = Inr ''ab''"
  by (simp add: greedy_until_text_def removeprefix_def split_head_def occurs_at_def)

subsection \<open>The retry wrapper\<close>

lemma megatron_completion_loop_success:
  assumes "megatron_query_check (srv (length (api_calls st)) (megatron_query_data self kw)) = Inr r"
  shows "megatron_completion_loop srv self kw b st
         = Some (r, st\<lparr>api_calls := api_calls st @ [megatron_query_data self kw]\<rparr>)"
  using assms
  by (subst megatron_completion_loop.simps) (simp add: megatron_query_def)

lemma megatron_completion_loop_failure:
  assumes "megatron_query_check (srv (length (api_calls st)) (megatron_query_data self kw)) = Inl e"
  shows "megatron_completion_loop srv self kw b st
         = megatron_completion_loop srv self kw (b * 1.5)
             (st\<lparr>api_calls := api_calls st @ [megatron_query_data self kw],
                 sleeps := sleeps st @ [b]\<rparr>)"
  using assms
  by (subst megatron_completion_loop.simps) (simp add: megatron_query_def)

lemma megatron_completion_loop_failures:
  assumes "\<forall>k<N. \<exists>e. megatron_query_check
              (srv (length (api_calls st) + k) (megatron_query_data self kw)) = Inl e"
  shows "megatron_completion_loop srv self kw b st
         = megatron_completion_loop srv self kw (b * 1.5 ^ N)
             (st\<lparr>api_calls := api_calls st @ replicate N (megatron_query_data self kw),
                 sleeps := sleeps st @ map (\<lambda>k. b * 1.5 ^ k) [0..<N]\<rparr>)"
  using assms
proof (induction N arbitrary: b st)
  case 0
  show ?case by simp
next
  case (Suc N)
  let ?data = "megatron_query_data self kw"
  let ?st1 = "st\<lparr>api_calls := api_calls st @ [?data], sleeps := sleeps st @ [b]\<rparr>"
  from Suc.prems obtain e where "megatron_query_check (srv (length (api_calls st)) ?data) = Inl e"
    by force
  then have first: "megatron_completion_loop srv self kw b st
                    = megatron_completion_loop srv self kw (b * 1.5) ?st1"
    by (rule megatron_completion_loop_failure [where srv = srv and st = st])
  have "\<forall>k<N. \<exists>e. megatron_query_check (srv (length (api_calls ?st1) + k) ?data) = Inl e"
  proof (intro allI impI)
    fix k assume "k < N"
    then have "Suc k < Suc N" by simp
    with Suc.prems have "\<exists>e. megatron_query_check (srv (length (api_calls st) + Suc k) ?data) = Inl e"
      by blast
    then show "\<exists>e. megatron_query_check (srv (length (api_calls ?st1) + k) ?data) = Inl e"
      by simp
  qed
  from Suc.IH [where st = "?st1" and b = "b * 1.5", OF this]
  have rest: "megatron_completion_loop srv self kw (b * 1.5) ?st1
              = megatron_completion_loop srv self kw (b * 1.5 * 1.5 ^ N)
                  (?st1\<lparr>api_calls := api_calls ?st1 @ replicate N ?data,
                       sleeps := sleeps ?st1 @ map (\<lambda>k. b * 1.5 * 1.5 ^ k) [0..<N]\<rparr>)" .
  have calls: "api_calls ?st1 @ replicate N ?data = api_calls st @ replicate (Suc N) ?data"
    by (simp add: replicate_append_same)
  have "map (\<lambda>k. b * 1.5 ^ k) [0..<Suc N] = b # map (\<lambda>k. b * 1.5 * 1.5 ^ k) [0..<N]"
    by (simp add: map_upt_Suc del: upt_Suc)
  then have slept: "sleeps ?st1 @ map (\<lambda>k. b * 1.5 * 1.5 ^ k) [0..<N]
                    = sleeps st @ map (\<lambda>k. b * 1.5 ^ k) [0..<Suc N]"
    by simp
  have pw: "b * 1.5 * 1.5 ^ N = b * 1.5 ^ Suc N" by simp
  show ?case
    unfolding first rest calls slept pw by simp
qed

lemma megatron_completion_loop_returns:
  assumes "megatron_completion_loop srv self kw b st = Some out"
  shows "\<exists>N. megatron_query_check (srv (length (api_calls st) + N) (megatron_query_data self kw))
          = Inr (fst out)
     \<and> (\<forall>k<N. \<exists>e. megatron_query_check
            (srv (length (api_calls st) + k) (megatron_query_data self kw)) = Inl e)"
proof (rule megatron_completion_loop.raw_induct
    [where P = "\<lambda>srv self kw b st out.
       \<exists>N. megatron_query_check (srv (length (api_calls st) + N) (megatron_query_data self kw))
              = Inr (fst out)
         \<and> (\<forall>k<N. \<exists>e. megatron_query_check
                (srv (length (api_calls st) + k) (megatron_query_data self kw)) = Inl e)",
     OF _ assms], goal_cases)
  case (1 loop srv self kw b st out)
  let ?data = "megatron_query_data self kw"
  show ?case
  proof (cases "megatron_query_check (srv (length (api_calls st)) ?data)")
    case (Inr r)
    with 1(2) have "fst out = r" by (auto simp: megatron_query_def)
    with Inr show ?thesis by (intro exI [of _ 0]) simp
  next
    case (Inl e)
    let ?st1 = "st\<lparr>api_calls := api_calls st @ [?data], sleeps := sleeps st @ [b]\<rparr>"
    from Inl 1(2) have "loop srv self kw (b * 1.5) ?st1 = Some out"
      by (simp add: megatron_query_def)
    from 1(1) [OF this] obtain N where
      N: "megatron_query_check (srv (length (api_calls ?st1) + N) ?data) = Inr (fst out)"
         "\<forall>k<N. \<exists>e. megatron_query_check (srv (length (api_calls ?st1) + k) ?data) = Inl e"
      by blast
    have "\<forall>k<Suc N. \<exists>e. megatron_query_check (srv (length (api_calls st) + k) ?data) = Inl e"
    proof (intro allI impI)
      fix k assume k: "k < Suc N"
      show "\<exists>e. megatron_query_check (srv (length (api_calls st) + k) ?data) = Inl e"
      proof (cases k)
        case 0
        with Inl show ?thesis by simp
      next
        case (Suc k')
        with k N(2) have "\<exists>e. megatron_query_check (srv (length (api_calls ?st1) + k') ?data) = Inl e"
          by simp
        with Suc show ?thesis by simp
      qed
    qed
    with N(1) show ?thesis by (intro exI [of _ "Suc N"]) simp
  qed
qed


text \<open>The run of the wrapper against the server whose first answer has the wrong shape.\<close>

lemma wrong_shape_then_ok_run:
  "megatron_completion wrong_shape_then_ok self kw fresh_state
   = Some (example_response,
           \<lparr>api_calls = [megatron_query_data self kw, megatron_query_data self kw],
            sleeps = [3]\<rparr>)"
proof -
  let ?data = "megatron_query_data self kw"
  let ?st1 = "\<lparr>api_calls = [?data], sleeps = [3]\<rparr>"
  have "megatron_query_check (wrong_shape_then_ok (length (api_calls fresh_state)) ?data)
        = Inl (UnexpectedResponseException 200)"
    by (simp add: wrong_shape_then_ok_def megatron_query_check_def fresh_state_def)
  from megatron_completion_loop_failure
    [where srv = wrong_shape_then_ok and st = fresh_state and b = 3, OF this]
  have first: "megatron_completion wrong_shape_then_ok self kw fresh_state
               = megatron_completion_loop wrong_shape_then_ok self kw (3 * 1.5) ?st1"
    by (simp add: megatron_completion_def fresh_state_def)
  have "megatron_query_check (wrong_shape_then_ok (length (api_calls ?st1)) ?data)
        = Inr example_response"
    by (simp add: wrong_shape_then_ok_def megatron_query_check_def)
  from megatron_completion_loop_success
    [where srv = wrong_shape_then_ok and st = "?st1" and b = "3 * 1.5", OF this]
  have "megatron_completion_loop wrong_shape_then_ok self kw (3 * 1.5) ?st1
        = Some (example_response, \<lparr>api_calls = [?data, ?data], sleeps = [3]\<rparr>)"
    by simp
  with first show ?thesis by simp
qed

text \<open>
  C5. When the query fails on the first \<open>N\<close> attempts and succeeds on the next, the
  wrapper returns that response after exactly \<open>N + 1\<close> requests, and the sleeps it has
  added are \<open>3 * 1.5 ^ (k - 1)\<close> before the \<open>k\<close>-th retry, for \<open>k = 1, ..., N\<close>. Whatever
  the server does, a value that the wrapper returns is the payload of an attempt that
  succeeded, never a failure.
\<close>

theorem megatron_completion_retry:
  assumes "\<forall>k<N. \<exists>e. megatron_query_check
              (srv (length (api_calls st) + k) (megatron_query_data self kw)) = Inl e"
    and "megatron_query_check
           (srv (length (api_calls st) + N) (megatron_query_data self kw)) = Inr response"
  shows "megatron_completion srv self kw st
         = Some (response,
                 st\<lparr>api_calls := api_calls st @ replicate (N + 1) (megatron_query_data self kw),
                    sleeps := sleeps st @ map (\<lambda>k. 3 * 1.5 ^ k) [0..<N]\<rparr>)
       \<and> (\<forall>srv' st' out. megatron_completion srv' self kw st' = Some out \<longrightarrow>
             (\<exists>k. megatron_query_check (srv' k (megatron_query_data self kw)) = Inr (fst out)))"
proof
  let ?data = "megatron_query_data self kw"
  let ?stN = "st\<lparr>api_calls := api_calls st @ replicate N ?data,
                 sleeps := sleeps st @ map (\<lambda>k. 3 * 1.5 ^ k) [0..<N]\<rparr>"
  have "megatron_completion srv self kw st = megatron_completion_loop srv self kw (3 * 1.5 ^ N) ?stN"
    unfolding megatron_completion_def using assms(1)
    by (rule megatron_completion_loop_failures [where srv = srv and st = st and N = N])
  moreover have "megatron_query_check (srv (length (api_calls ?stN)) ?data) = Inr response"
    using assms(2) by simp
  then have "megatron_completion_loop srv self kw (3 * 1.5 ^ N) ?stN
             = Some (response, ?stN\<lparr>api_calls := api_calls ?stN @ [?data]\<rparr>)"
    by (rule megatron_completion_loop_success [where srv = srv and st = "?stN"])
  moreover have "replicate N ?data @ [?data] = replicate (N + 1) ?data"
    by (simp add: replicate_append_same)
  ultimately show "megatron_completion srv self kw st
         = Some (response,
                 st\<lparr>api_calls := api_calls st @ replicate (N + 1) ?data,
                    sleeps := sleeps st @ map (\<lambda>k. 3 * 1.5 ^ k) [0..<N]\<rparr>)"
    by simp
next
  show "\<forall>srv' st' out. megatron_completion srv' self kw st' = Some out \<longrightarrow>
          (\<exists>k. megatron_query_check (srv' k (megatron_query_data self kw)) = Inr (fst out))"
    unfolding megatron_completion_def
    using megatron_completion_loop_returns by blast
qed

theorem megatron_completion_retry_witness:
  "megatron_query_check
        (busy_then_ok (length (api_calls fresh_state) + 0)
           (megatron_query_data tiny_client example_kwargs)) = Inl (StatusException 503 ''busy'')
   \<and> megatron_query_check
        (busy_then_ok (length (api_calls fresh_state) + 1)
           (megatron_query_data tiny_client example_kwargs)) = Inl (StatusException 503 ''busy'')
   \<and> megatron_query_check
        (busy_then_ok (length (api_calls fresh_state) + 2)
           (megatron_query_data tiny_client example_kwargs)) = Inr example_response
   \<and> megatron_completion busy_then_ok tiny_client example_kwargs fresh_state
     = Some (example_response,
             \<lparr>api_calls = [megatron_query_data tiny_client example_kwargs,
                           megatron_query_data tiny_client example_kwargs,
                           megatron_query_data tiny_client example_kwargs],
              sleeps = [3, 4.5]\<rparr>)"
proof -
  let ?data = "megatron_query_data tiny_client example_kwargs"
  have fails: "\<forall>k<2. \<exists>e. megatron_query_check
                 (busy_then_ok (length (api_calls fresh_state) + k) ?data) = Inl e"
    by (simp add: busy_then_ok_def megatron_query_check_def fresh_state_def)
  have ok: "megatron_query_check (busy_then_ok (length (api_calls fresh_state) + 2) ?data)
            = Inr example_response"
    by (simp add: busy_then_ok_def megatron_query_check_def fresh_state_def)
  have two: "[0..<2] = [0, Suc 0]"
    by (simp add: upt_rec)
  have "megatron_completion busy_then_ok tiny_client example_kwargs fresh_state
        = Some (example_response,
             \<lparr>api_calls = [?data, ?data, ?data], sleeps = [3, 4.5]\<rparr>)"
    using megatron_completion_retry
      [where srv = busy_then_ok and st = fresh_state and N = 2 and self = tiny_client
         and kw = example_kwargs and response = example_response, OF fails ok]
    by (simp add: fresh_state_def two numeral_3_eq_3)
  moreover have "megatron_query_check (busy_then_ok (length (api_calls fresh_state) + 0) ?data)
                 = Inl (StatusException 503 ''busy'')"
    and "megatron_query_check (busy_then_ok (length (api_calls fresh_state) + 1) ?data)
                 = Inl (StatusException 503 ''busy'')"
    by (simp_all add: busy_then_ok_def megatron_query_check_def fresh_state_def)
  ultimately show ?thesis using ok by blast
qed

text \<open>
  C6, as the code has it. A response with status 200 whose payload is not a mapping
  makes \<^verbatim>\<open>megatron_query\<close> raise, and the wrapper catches that exception as it catches
  every other: it sleeps for 3 and sends the request again with the back-off time
  multiplied by 1.5. What the wrapper returns, if it returns, comes from a later
  attempt; the failure does not reach its caller.
\<close>

theorem shape_violation_is_retried:
  assumes "srv (length (api_calls st)) (megatron_query_data self kw) = Put_returns response"
    and "status_code response = 200"
    and "json_body response = Some Not_mapping"
  shows "megatron_query srv self kw st
         = (st\<lparr>api_calls := api_calls st @ [megatron_query_data self kw]\<rparr>,
            Inl (UnexpectedResponseException 200))
       \<and> megatron_completion srv self kw st
         = megatron_completion_loop srv self kw (3 * 1.5)
             (st\<lparr>api_calls := api_calls st @ [megatron_query_data self kw],
                 sleeps := sleeps st @ [3]\<rparr>)
       \<and> (\<forall>out. megatron_completion srv self kw st = Some out \<longrightarrow>
             (\<exists>N. megatron_query_check
                     (srv (length (api_calls st) + Suc N) (megatron_query_data self kw))
                   = Inr (fst out)))"
proof -
  let ?data = "megatron_query_data self kw"
  let ?st1 = "st\<lparr>api_calls := api_calls st @ [?data], sleeps := sleeps st @ [3]\<rparr>"
  have chk: "megatron_query_check (srv (length (api_calls st)) ?data)
             = Inl (UnexpectedResponseException 200)"
    using assms by (simp add: megatron_query_check_def)
  then have q: "megatron_query srv self kw st
                = (st\<lparr>api_calls := api_calls st @ [?data]\<rparr>, Inl (UnexpectedResponseException 200))"
    by (simp add: megatron_query_def)
  have step: "megatron_completion srv self kw st = megatron_completion_loop srv self kw (3 * 1.5) ?st1"
    unfolding megatron_completion_def using chk
    by (rule megatron_completion_loop_failure [where srv = srv and st = st])
  have later: "\<exists>N. megatron_query_check (srv (length (api_calls st) + Suc N) ?data) = Inr (fst out)"
    if "megatron_completion srv self kw st = Some out" for out
  proof -
    from that step have "megatron_completion_loop srv self kw (3 * 1.5) ?st1 = Some out"
      by simp
    from megatron_completion_loop_returns [where srv = srv and st = "?st1", OF this]
    show ?thesis by auto
  qed
  from q step later show ?thesis by blast
qed

theorem shape_violation_is_retried_witness:
  "wrong_shape_then_ok (length (api_calls fresh_state))
       (megatron_query_data tiny_client example_kwargs)
     = Put_returns \<lparr>status_code = 200, content = ''[]'', json_body = Some Not_mapping\<rparr>
   \<and> status_code \<lparr>status_code = 200, content = ''[]'', json_body = Some Not_mapping\<rparr> = 200
   \<and> json_body \<lparr>status_code = 200, content = ''[]'', json_body = Some Not_mapping\<rparr>
     = Some Not_mapping
   \<and> megatron_query wrong_shape_then_ok tiny_client example_kwargs fresh_state
     = (\<lparr>api_calls = [megatron_query_data tiny_client example_kwargs], sleeps = []\<rparr>,
        Inl (UnexpectedResponseException 200))"
proof -
  let ?r = "\<lparr>status_code = 200, content = ''[]'', json_body = Some Not_mapping\<rparr>"
  have h1: "wrong_shape_then_ok (length (api_calls fresh_state))
              (megatron_query_data tiny_client example_kwargs) = Put_returns ?r"
    by (simp add: wrong_shape_then_ok_def fresh_state_def)
  have h2: "status_code ?r = 200" and h3: "json_body ?r = Some Not_mapping"
    by simp_all
  from shape_violation_is_retried
    [where srv = wrong_shape_then_ok and st = fresh_state and self = tiny_client
       and kw = example_kwargs, OF h1 h2 h3] h1 h2 h3
  show ?thesis by (simp add: fresh_state_def)
qed

text \<open>
  C6, as the specification states it, fails. The first answer has status 200 and a
  payload that is not a mapping, for which \<^verbatim>\<open>megatron_query\<close> raises; the wrapper
  does not surface it but sleeps for 3, sends the request a second time and returns the
  second answer.
\<close>

theorem shape_violation_counterexample:
  "megatron_query_check
     (wrong_shape_then_ok 0 (megatron_query_data tiny_client example_kwargs))
   = Inl (UnexpectedResponseException 200)
   \<and> megatron_completion wrong_shape_then_ok tiny_client example_kwargs fresh_state
     = Some (example_response,
             \<lparr>api_calls = [megatron_query_data tiny_client example_kwargs,
                           megatron_query_data tiny_client example_kwargs],
              sleeps = [3]\<rparr>)"
  using wrong_shape_then_ok_run [of tiny_client example_kwargs]
  by (simp add: wrong_shape_then_ok_def megatron_query_check_def)


subsection \<open>Dispatching a generation group\<close>







subsection \<open>Reordering and restoring the order\<close>

lemma fold_put_length:
  "length (fold (\<lambda>(p, v) res. res[fst p := Some v]) ps init) = length init"
  by (induction ps arbitrary: init) (auto split: prod.splits)

lemma fold_put_nth:
  assumes "\<forall>q\<in>set ps. snd q = f (fst (fst q))"
    and "j < length init"
  shows "fold (\<lambda>(p, v) res. res[fst p := Some v]) ps init ! j
         = (if j \<in> (fst \<circ> fst) ` set ps then Some (f j) else init ! j)"
  using assms
proof (induction ps arbitrary: init)
  case Nil
  show ?case by simp
next
  case (Cons q ps)
  obtain i x v where q: "q = ((i, x), v)" by (metis surj_pair)
  with Cons.prems have v: "v = f i" by simp
  have "fold (\<lambda>(p, v) res. res[fst p := Some v]) (q # ps) init ! j
        = fold (\<lambda>(p, v) res. res[fst p := Some v]) ps (init[i := Some v]) ! j"
    by (simp add: q)
  also have "\<dots> = (if j \<in> (fst \<circ> fst) ` set ps then Some (f j) else init[i := Some v] ! j)"
    using Cons.prems by (intro Cons.IH) simp_all
  also have "\<dots> = (if j \<in> (fst \<circ> fst) ` set (q # ps) then Some (f j) else init ! j)"
    using Cons.prems(2) v by (auto simp: q nth_list_update)
  finally show ?case .
qed

lemma zip_map_same: "zip ys (map h ys) = map (\<lambda>y. (y, h y)) ys"
  by (induction ys) auto

lemma set_arr_Reorderer: "set (arr (Reorderer xs fn)) = set (enumerate 0 xs)"
  by (simp add: Reorderer_def)

lemma get_original_map:
  "get_original (Reorderer xs fn) (map g (get_reordered (Reorderer xs fn)))
   = map (\<lambda>x. Some (g x)) xs"
proof (rule nth_equalityI)
  let ?arr = "arr (Reorderer xs fn)"
  let ?ps = "zip ?arr (map g (map snd ?arr))"
  have len: "length (get_original (Reorderer xs fn) (map g (get_reordered (Reorderer xs fn))))
             = length xs"
    by (simp add: get_original_def fold_put_length Reorderer_def)
  then show "length (get_original (Reorderer xs fn) (map g (get_reordered (Reorderer xs fn))))
             = length (map (\<lambda>x. Some (g x)) xs)"
    by simp
  fix j assume "j < length (get_original (Reorderer xs fn) (map g (get_reordered (Reorderer xs fn))))"
  with len have j: "j < length xs" by simp
  have tagged: "\<forall>p\<in>set ?arr. snd p = xs ! fst p"
    by (auto simp: set_arr_Reorderer in_set_enumerate_eq)
  have "\<forall>q\<in>set ?ps. snd q = (\<lambda>i. g (xs ! i)) (fst (fst q))"
  proof
    fix q assume "q \<in> set ?ps"
    then obtain p where "p \<in> set ?arr" "q = (p, g (snd p))"
      by (auto simp: zip_map_same)
    with tagged show "snd q = (\<lambda>i. g (xs ! i)) (fst (fst q))" by simp
  qed
  moreover have "j < length (replicate (length xs) (None :: 'c option))"
    using j by simp
  ultimately have "fold (\<lambda>(p, v) res. res[fst p := Some v]) ?ps (replicate (length xs) None) ! j
        = (if j \<in> (fst \<circ> fst) ` set ?ps then Some (g (xs ! j)) else replicate (length xs) None ! j)"
    using fold_put_nth [where f = "\<lambda>i. g (xs ! i)" and ps = "?ps"
        and init = "replicate (length xs) None" and j = j]
    by simp
  moreover have "j \<in> (fst \<circ> fst) ` set ?ps"
  proof -
    from j have "(j, xs ! j) \<in> set ?arr"
      by (simp add: set_arr_Reorderer in_set_enumerate_eq)
    then have "((j, xs ! j), g (xs ! j)) \<in> set ?ps"
      by (force simp: zip_map_same)
    then show ?thesis by force
  qed
  ultimately show "get_original (Reorderer xs fn) (map g (get_reordered (Reorderer xs fn))) ! j
                   = map (\<lambda>x. Some (g x)) xs ! j"
    using j by (simp add: get_original_def get_reordered_def Reorderer_def)
qed


lemma get_reordered_sorted:
  "sorted (map fn (get_reordered (Reorderer xs fn)))"
proof -
  have "map fn (get_reordered (Reorderer xs fn))
        = map (\<lambda>p. fn (snd p)) (sort_key (\<lambda>p. fn (snd p)) (enumerate 0 xs))"
    by (simp add: get_reordered_def Reorderer_def comp_def)
  then show ?thesis by (simp only: sorted_sort_key)
qed

lemma get_reordered_length: "length (get_reordered (Reorderer xs fn)) = length xs"
  by (simp add: get_reordered_def Reorderer_def)

text \<open>
  C1. For every sequence of requests and every way \<open>f\<close> of computing a result from a
  request, \<^verbatim>\<open>get_original\<close> applied to the results of the reordered requests gives, at
  each position of the input, the result of the request at that position: the output
  has the length of the input and its order, whatever keys coincide. This holds with the
  key of the log-likelihood path and with the key of the generation path; on the
  generation path it also holds when the results are computed group by group over the
  output of \<^verbatim>\<open>sameuntil_chunks\<close> and appended, as \<^verbatim>\<open>greedy_until\<close> does. The
  reorderer is the one modelled from the specification.
\<close>

theorem reorderer_round_trip:
  "get_original (Reorderer requests collate_loglikelihood)
     (map f (get_reordered (Reorderer requests collate_loglikelihood)))
   = map (\<lambda>x. Some (f x)) requests
   \<and> length (get_reordered (Reorderer requests collate_loglikelihood)) = length requests
   \<and> get_original (Reorderer grequests (collate_greedy_until tok_encode))
       (map g (get_reordered (Reorderer grequests (collate_greedy_until tok_encode))))
     = map (\<lambda>x. Some (g x)) grequests
   \<and> length (get_reordered (Reorderer grequests (collate_greedy_until tok_encode)))
     = length grequests
   \<and> (grequests \<noteq> [] \<longrightarrow>
        (\<exists>groups.
           sameuntil_chunks
             (get_reordered (Reorderer grequests (collate_greedy_until tok_encode))) sz
           = Inr groups
         \<and> get_original (Reorderer grequests (collate_greedy_until tok_encode))
             (concat (map (\<lambda>grp. map g (fst grp)) groups))
           = map (\<lambda>x. Some (g x)) grequests))"
proof (intro conjI impI)
  let ?R = "Reorderer grequests (collate_greedy_until tok_encode)"
  assume "grequests \<noteq> []"
  then have "get_reordered ?R \<noteq> []"
    using get_reordered_length [of grequests "collate_greedy_until tok_encode"] by auto
  then obtain x rest where xs: "get_reordered ?R = x # rest"
    by (cases "get_reordered ?R") auto
  let ?groups = "sameuntil_loop (get_reordered ?R) sz [] (snd x)"
  have "sameuntil_chunks (get_reordered ?R) sz = Inr ?groups"
    by (simp add: sameuntil_chunks_def xs)
  moreover have "concat (map (\<lambda>grp. map g (fst grp)) ?groups)
                 = map g (concat (map fst ?groups))"
    by (simp add: map_concat comp_def)
  then have "concat (map (\<lambda>grp. map g (fst grp)) ?groups) = map g (get_reordered ?R)"
    by (simp add: sameuntil_loop_concat)
  then have "get_original ?R (concat (map (\<lambda>grp. map g (fst grp)) ?groups))
             = map (\<lambda>x. Some (g x)) grequests"
    by (simp only: get_original_map)
  ultimately show "\<exists>groups. sameuntil_chunks (get_reordered ?R) sz = Inr groups
         \<and> get_original ?R (concat (map (\<lambda>grp. map g (fst grp)) groups))
           = map (\<lambda>x. Some (g x)) grequests"
    by blast
qed (simp_all add: get_original_map get_reordered_length)

theorem reorderer_round_trip_witness:
  "get_reordered
     (Reorderer [((), [1], [2]), ((), [5, 6], [7]), ((), [1], [2]), ((), [0], [9])]
        collate_loglikelihood)
   = [((), [5, 6], [7]), ((), [0], [9]), ((), [1], [2]), ((), [1], [2])]
   \<and> get_original
       (Reorderer [((), [1], [2]), ((), [5, 6], [7]), ((), [1], [2]), ((), [0], [9])]
          collate_loglikelihood)
       (map (\<lambda>x. fst (snd x) @ snd (snd x))
          (get_reordered
             (Reorderer [((), [1], [2]), ((), [5, 6], [7]), ((), [1], [2]), ((), [0], [9])]
                collate_loglikelihood)))
     = [Some [1, 2], Some [5, 6, 7], Some [1, 2], Some [0, 9]]
   \<and> get_reordered
       (Reorderer [(''bb'', stop_A), (''a'', stop_B), (''bb'', stop_B)]
          (collate_greedy_until byte_tok_encode))
     = [(''a'', stop_B), (''bb'', stop_A), (''bb'', stop_B)]
   \<and> [(''bb'', stop_A), (''a'', stop_B), (''bb'', stop_B)] \<noteq> []
   \<and> (\<exists>groups.
         sameuntil_chunks
           (get_reordered
              (Reorderer [(''bb'', stop_A), (''a'', stop_B), (''bb'', stop_B)]
                 (collate_greedy_until byte_tok_encode))) 10
         = Inr groups
       \<and> get_original
           (Reorderer [(''bb'', stop_A), (''a'', stop_B), (''bb'', stop_B)]
              (collate_greedy_until byte_tok_encode))
           (concat (map (\<lambda>grp. map fst (fst grp)) groups))
         = [Some ''bb'', Some ''a'', Some ''bb''])"
proof -
  have ll: "get_reordered
     (Reorderer [((), [1], [2]), ((), [5, 6], [7]), ((), [1], [2]), ((), [0], [9])]
        collate_loglikelihood)
   = [((), [5, 6], [7]), ((), [0], [9]), ((), [1], [2]), ((), [1], [2])]"
    by code_simp
  have gen: "get_reordered
       (Reorderer [(''bb'', stop_A), (''a'', stop_B), (''bb'', stop_B)]
          (collate_greedy_until byte_tok_encode))
     = [(''a'', stop_B), (''bb'', stop_A), (''bb'', stop_B)]"
    by code_simp
  have ne: "[(''bb'', stop_A), (''a'', stop_B), (''bb'', stop_B)] \<noteq> []"
    by simp
  from reorderer_round_trip
    [of "[((), [1], [2]), ((), [5, 6], [7]), ((), [1], [2]), ((), [0], [9])]"
        "\<lambda>x. fst (snd x) @ snd (snd x)"
        "[(''bb'', stop_A), (''a'', stop_B), (''bb'', stop_B)]"
        byte_tok_encode fst 10]
  have "get_original
       (Reorderer [((), [1], [2]), ((), [5, 6], [7]), ((), [1], [2]), ((), [0], [9])]
          collate_loglikelihood)
       (map (\<lambda>x. fst (snd x) @ snd (snd x))
          (get_reordered
             (Reorderer [((), [1], [2]), ((), [5, 6], [7]), ((), [1], [2]), ((), [0], [9])]
                collate_loglikelihood)))
     = [Some [1, 2], Some [5, 6, 7], Some [1, 2], Some [0, 9]]"
    and "\<exists>groups.
         sameuntil_chunks
           (get_reordered
              (Reorderer [(''bb'', stop_A), (''a'', stop_B), (''bb'', stop_B)]
                 (collate_greedy_until byte_tok_encode))) 10
         = Inr groups
       \<and> get_original
           (Reorderer [(''bb'', stop_A), (''a'', stop_B), (''bb'', stop_B)]
              (collate_greedy_until byte_tok_encode))
           (concat (map (\<lambda>grp. map fst (fst grp)) groups))
         = [Some ''bb'', Some ''a'', Some ''bb'']"
    by simp_all
  with ll gen ne show ?thesis by blast
qed

end
